theory Spec2Isabelle
  imports Complex_Main "HOL-Library.AList"
begin

section \<open>Duration strings of the issue detail panel\<close>

text \<open>
  The client reads a duration typed by the user with
  \<^verbatim>\<open>timeStr.trim().match(/(?:(\d+)w\s*)?(?:(\d+)d\s*)?(?:(\d+)h\s*)?(?:(\d+)m)?/)\<close>.
  The regular expression is embedded as a syntax tree and run by a backtracking matcher in
  continuation-passing style, which is how the language standard specifies matching:
  a quantifier first tries the greedy alternative and falls back when the continuation fails.

  Strings are lists of 8-bit characters; the white space of \<^verbatim>\<open>\s\<close> and of
  \<^verbatim>\<open>trim\<close> inside that range is TAB, LF, VT, FF, CR, SP and NBSP.
  Numbers that hold second counts are mathematical integers: the program's double-precision
  numbers represent every integer below \<open>2^53\<close> exactly, and sums and products of such
  integers are exact up to that bound.
\<close>

datatype cls = Digit | Space

definition is_digit :: "char \<Rightarrow> bool" where
  "is_digit c \<longleftrightarrow> 48 \<le> (of_char c :: nat) \<and> (of_char c :: nat) \<le> 57"

definition is_space :: "char \<Rightarrow> bool" where
  "is_space c \<longleftrightarrow> (of_char c :: nat) \<in> {9, 10, 11, 12, 13, 32, 160}"

fun in_cls :: "cls \<Rightarrow> char \<Rightarrow> bool" where
  "in_cls Digit c = is_digit c"
| "in_cls Space c = is_space c"

datatype re = Lit char | Plus cls | Star cls | Cat re re | Opt re | Group nat re

type_synonym caps = "nat \<Rightarrow> string option"

text \<open>Greedy \<^verbatim>\<open>*\<close> over a character class: take the character, and give it back
  when everything after it fails.\<close>

fun star_m :: "cls \<Rightarrow> string \<Rightarrow> (string \<Rightarrow> 'a option) \<Rightarrow> 'a option" where
  "star_m c [] k = k []"
| "star_m c (x # xs) k =
     (if in_cls c x
      then (case star_m c xs k of Some r \<Rightarrow> Some r | None \<Rightarrow> k (x # xs))
      else k (x # xs))"

text \<open>The matcher takes the rest of the input, the captures so far and the continuation.
  An optional group that matched the empty string is rejected, as the standard asks of a
  quantifier whose lower bound is zero; a capture group records the text it consumed.\<close>

fun m :: "re \<Rightarrow> string \<Rightarrow> caps \<Rightarrow> (string \<Rightarrow> caps \<Rightarrow> 'a option) \<Rightarrow> 'a option" where
  "m (Lit c) s cs k = (case s of [] \<Rightarrow> None | x # xs \<Rightarrow> if x = c then k xs cs else None)"
| "m (Plus c) s cs k =
     (case s of [] \<Rightarrow> None
      | x # xs \<Rightarrow> if in_cls c x then star_m c xs (\<lambda>r. k r cs) else None)"
| "m (Star c) s cs k = star_m c s (\<lambda>r. k r cs)"
| "m (Cat a b) s cs k = m a s cs (\<lambda>r cs'. m b r cs' k)"
| "m (Opt a) s cs k =
     (case m a s cs (\<lambda>r cs'. if length r < length s then k r cs' else None) of
        Some y \<Rightarrow> Some y
      | None \<Rightarrow> k s cs)"
| "m (Group n a) s cs k =
     m a s cs (\<lambda>r cs'. k r (cs'(n \<mapsto> take (length s - length r) s)))"

text \<open>\<^verbatim>\<open>String.prototype.match\<close> without the global flag: the first start index, from
  the left, at which the pattern matches; \<open>None\<close> is the \<^verbatim>\<open>null\<close> of no match.\<close>

fun exec :: "re \<Rightarrow> string \<Rightarrow> caps option" where
  "exec r [] = m r [] (\<lambda>_. None) (\<lambda>_ cs. Some cs)"
| "exec r (x # xs) =
     (case m r (x # xs) (\<lambda>_. None) (\<lambda>_ cs. Some cs) of
        Some cs \<Rightarrow> Some cs
      | None \<Rightarrow> exec r xs)"

definition tok :: "nat \<Rightarrow> char \<Rightarrow> re" where
  "tok n u = Opt (Cat (Group n (Plus Digit)) (Cat (Lit u) (Star Space)))"

definition tok_m :: re where
  "tok_m = Opt (Cat (Group 4 (Plus Digit)) (Lit CHR ''m''))"

definition timeRegex :: re where
  "timeRegex = Cat (tok 1 CHR ''w'') (Cat (tok 2 CHR ''d'') (Cat (tok 3 CHR ''h'') tok_m))"

fun rstrip :: "string \<Rightarrow> string" where
  "rstrip [] = []"
| "rstrip (x # xs) = (let r = rstrip xs in if r = [] \<and> is_space x then [] else x # r)"

definition trim :: "string \<Rightarrow> string" where
  "trim s = rstrip (dropWhile is_space s)"

text \<open>A number of the program: \<open>NaN\<close> or an integer. \<open>NaN\<close> is contagious in sums and
  products.\<close>

datatype jsnum = NaN | Num int

fun js_add :: "jsnum \<Rightarrow> jsnum \<Rightarrow> jsnum" where
  "js_add (Num a) (Num b) = Num (a + b)"
| "js_add _ _ = NaN"

fun js_mul :: "jsnum \<Rightarrow> jsnum \<Rightarrow> jsnum" where
  "js_mul (Num a) (Num b) = Num (a * b)"
| "js_mul _ _ = NaN"

definition digit_val :: "char \<Rightarrow> nat" where
  "digit_val c =
     (let n = (of_char c :: nat) in
      if 48 \<le> n \<and> n \<le> 57 then n - 48
      else if 97 \<le> n \<and> n \<le> 122 then n - 87
      else if 65 \<le> n \<and> n \<le> 90 then n - 55
      else 36)"

definition radix_val :: "nat \<Rightarrow> string \<Rightarrow> nat" where
  "radix_val R ds = foldl (\<lambda>a c. R * a + digit_val c) 0 ds"

text \<open>\<^verbatim>\<open>parseInt\<close> with no radix argument: leading white space, a sign, then a
  \<^verbatim>\<open>0x\<close> prefix selects base 16 and anything else base 10; the longest prefix of
  digits of that base is read, and no digit at all gives \<open>NaN\<close>.\<close>

definition parseInt :: "string \<Rightarrow> jsnum" where
  "parseInt str =
     (let s1 = dropWhile is_space str;
          neg = (case s1 of [] \<Rightarrow> False | c # _ \<Rightarrow> c = CHR ''-'');
          s2 = (case s1 of [] \<Rightarrow> [] | c # r \<Rightarrow> if c = CHR ''+'' \<or> c = CHR ''-'' then r else s1);
          hex = (case s2 of a # b # _ \<Rightarrow> a = CHR ''0'' \<and> (b = CHR ''x'' \<or> b = CHR ''X'') | _ \<Rightarrow> False);
          R = (if hex then 16 else 10);
          s3 = (if hex then drop 2 s2 else s2);
          ds = takeWhile (\<lambda>c. digit_val c < R) s3
      in if ds = [] then NaN
         else Num ((if neg then - 1 else 1) * int (radix_val R ds)))"

text \<open>\<^verbatim>\<open>match[i] || '0'\<close>: a group that did not take part is \<^verbatim>\<open>undefined\<close>, and
  the empty string is falsy as well.\<close>

definition or_zero :: "string option \<Rightarrow> string" where
  "or_zero g = (case g of None \<Rightarrow> ''0'' | Some s \<Rightarrow> if s = [] then ''0'' else s)"

definition parseTimeToSeconds :: "string \<Rightarrow> jsnum option" where
  "parseTimeToSeconds timeStr =
     (case exec timeRegex (trim timeStr) of
        None \<Rightarrow> None
      | Some match \<Rightarrow>
          (let weeks = parseInt (or_zero (match 1));
               days = parseInt (or_zero (match 2));
               hours = parseInt (or_zero (match 3));
               minutes = parseInt (or_zero (match 4))
           in Some (js_add (js_add (js_add
                (js_mul (js_mul (js_mul weeks (Num 5)) (Num 8)) (Num 3600))
                (js_mul (js_mul days (Num 8)) (Num 3600)))
                (js_mul hours (Num 3600)))
                (js_mul minutes (Num 60)))))"

text \<open>Truthiness of the parser's result, as \<^verbatim>\<open>if (!seconds)\<close> tests it.\<close>

fun falsy :: "jsnum option \<Rightarrow> bool" where
  "falsy None = True"
| "falsy (Some NaN) = True"
| "falsy (Some (Num n)) = (n = 0)"

text \<open>What \<^verbatim>\<open>handleLogTime\<close> does with the text of the input field: nothing when it is
  blank, the alert about the format when the parsed value is falsy, and otherwise the
  request that logs the seconds.\<close>

datatype log_outcome = NoRequest | InvalidFormat | PostWorklog jsnum

definition handleLogTime :: "string \<Rightarrow> log_outcome" where
  "handleLogTime timeSpent =
     (if trim timeSpent = [] then NoRequest
      else (case parseTimeToSeconds timeSpent of
              None \<Rightarrow> InvalidFormat
            | Some seconds \<Rightarrow>
                if falsy (Some seconds) then InvalidFormat else PostWorklog seconds))"




text \<open>Reading aids for the statements below: the token \<open>digits unit\<close> at the head of a
  string, a token anywhere in a string, and the text of a duration built from its parts.\<close>

definition lex_token :: "char \<Rightarrow> string \<Rightarrow> (string \<times> string) option" where
  "lex_token u s =
     (case dropWhile is_digit s of
        [] \<Rightarrow> None
      | y # ys \<Rightarrow> if takeWhile is_digit s \<noteq> [] \<and> y = u then Some (takeWhile is_digit s, ys) else None)"

definition read_token :: "char \<Rightarrow> string \<Rightarrow> string option \<times> string" where
  "read_token u s =
     (case lex_token u s of
        None \<Rightarrow> (None, s)
      | Some (ds, ys) \<Rightarrow> (Some ds, dropWhile is_space ys))"

definition scan :: "string \<Rightarrow> string option \<times> string option \<times> string option \<times> string option" where
  "scan s =
     (let (w, s1) = read_token CHR ''w'' s;
          (d, s2) = read_token CHR ''d'' s1;
          (h, s3) = read_token CHR ''h'' s2
      in (w, d, h, map_option fst (lex_token CHR ''m'' s3)))"

definition upd :: "nat \<Rightarrow> string option \<Rightarrow> caps \<Rightarrow> caps" where
  "upd n g cs = (case g of None \<Rightarrow> cs | Some ds \<Rightarrow> cs(n \<mapsto> ds))"

definition is_unit :: "char \<Rightarrow> bool" where
  "is_unit c \<longleftrightarrow> c \<in> set ''wdhm''"

fun has_token :: "string \<Rightarrow> bool" where
  "has_token (x # y # r) = ((is_digit x \<and> is_unit y) \<or> has_token (y # r))"
| "has_token _ = False"

definition digits :: "string \<Rightarrow> bool" where
  "digits ds \<longleftrightarrow> ds \<noteq> [] \<and> list_all is_digit ds"


fun token_val :: "string option \<Rightarrow> int" where
  "token_val None = 0"
| "token_val (Some ds) = int (radix_val 10 ds)"

fun token_ok :: "string option \<Rightarrow> bool" where
  "token_ok None = True"
| "token_ok (Some ds) = digits ds"

definition no_group :: "string \<Rightarrow> bool" where
  "no_group s =
     (case exec timeRegex (trim s) of
        None \<Rightarrow> True
      | Some cs \<Rightarrow> cs 1 = None \<and> cs 2 = None \<and> cs 3 = None \<and> cs 4 = None)"

section \<open>Time values and the calendar\<close>

text \<open>
  A date object holds a time value: integer milliseconds since 1970-01-01T00:00Z. The
  server's time zone is a fixed offset \<open>tz\<close> (local time minus UTC, in milliseconds);
  daylight-saving changes inside the period looked at are not modelled, and neither is the
  time that passes between the handler's successive readings of the clock: one instant \<open>now\<close>
  stands for all of them. The date methods follow the language standard: the setters work on
  the local time and convert back.

  Months are counted from January 1970 (\<open>k = 12 * (year - 1970) + month\<close>); a day is its
  number since 1970-01-01, which also stands for the text \<^verbatim>\<open>YYYY-MM-DD\<close> that
  \<^verbatim>\<open>toISOString().split('T')[0]\<close> gives for it.
\<close>

definition msPerDay :: int where
  "msPerDay = 86400000"

definition Day :: "int \<Rightarrow> int" where
  "Day t = t div msPerDay"

definition TimeWithinDay :: "int \<Rightarrow> int" where
  "TimeWithinDay t = t mod msPerDay"

definition LocalTime :: "int \<Rightarrow> int \<Rightarrow> int" where
  "LocalTime tz t = t + tz"

definition UTC :: "int \<Rightarrow> int \<Rightarrow> int" where
  "UTC tz t = t - tz"

definition MakeTime :: "int \<Rightarrow> int \<Rightarrow> int \<Rightarrow> int \<Rightarrow> int" where
  "MakeTime h mi s ms = ((h * 60 + mi) * 60 + s) * 1000 + ms"

definition MakeDate :: "int \<Rightarrow> int \<Rightarrow> int" where
  "MakeDate day time = day * msPerDay + time"

definition WeekDay :: "int \<Rightarrow> int" where
  "WeekDay t = (Day t + 4) mod 7"

definition leap :: "nat \<Rightarrow> bool" where
  "leap y \<longleftrightarrow> (y mod 4 = 0 \<and> y mod 100 \<noteq> 0) \<or> y mod 400 = 0"

definition DaysInMonth :: "nat \<Rightarrow> int" where
  "DaysInMonth k =
     (let y = 1970 + k div 12; mo = k mod 12
      in if mo = 1 then (if leap y then 29 else 28)
         else if mo \<in> {3, 5, 8, 10} then 30 else 31)"

fun MonthStart :: "nat \<Rightarrow> int" where
  "MonthStart 0 = 0"
| "MonthStart (Suc k) = MonthStart k + DaysInMonth k"

function month_search :: "nat \<Rightarrow> int \<Rightarrow> int \<Rightarrow> nat" where
  "month_search k s d =
     (if d < s + DaysInMonth k then k else month_search (Suc k) (s + DaysInMonth k) d)"
  by pat_completeness auto
termination
  by (relation "measure (\<lambda>(k, s, d). nat (d - s))")
     (auto simp: DaysInMonth_def Let_def split: if_splits)

declare month_search.simps [simp del]

text \<open>The month of a day on or after 1970-01-01.\<close>

definition MonthIndex :: "int \<Rightarrow> nat" where
  "MonthIndex d = month_search 0 0 d"

definition getDay :: "int \<Rightarrow> int \<Rightarrow> int" where
  "getDay tz t = WeekDay (LocalTime tz t)"

definition getDate :: "int \<Rightarrow> int \<Rightarrow> int" where
  "getDate tz t =
     (let d = Day (LocalTime tz t) in d - MonthStart (MonthIndex d) + 1)"



definition setDate :: "int \<Rightarrow> int \<Rightarrow> int \<Rightarrow> int" where
  "setDate tz t n =
     (let l = LocalTime tz t
      in UTC tz (MakeDate (MonthStart (MonthIndex (Day l)) + n - 1) (TimeWithinDay l)))"

definition setHours :: "int \<Rightarrow> int \<Rightarrow> int \<Rightarrow> int \<Rightarrow> int \<Rightarrow> int \<Rightarrow> int" where
  "setHours tz t h mi s ms = UTC tz (MakeDate (Day (LocalTime tz t)) (MakeTime h mi s ms))"


definition toISODate :: "int \<Rightarrow> int" where
  "toISODate t = Day t"

section \<open>Double-precision arithmetic\<close>

text \<open>
  Quotients and percentages are computed in double precision. A double is modelled by the
  rational number it stands for; \<open>fl\<close> rounds a rational to the nearest number with a 53-bit
  significand, ties to the even significand, as each arithmetic operation of the program does
  with its exact result. Values here stay far inside the normal range, so overflow and
  subnormal numbers are left out.
\<close>

fun bits :: "nat \<Rightarrow> nat" where
  "bits n = (if n = 0 then 0 else Suc (bits (n div 2)))"

declare bits.simps [simp del]

definition pow2 :: "int \<Rightarrow> rat" where
  "pow2 e = (if 0 \<le> e then 2 ^ nat e else 1 / 2 ^ nat (- e))"

definition ilog2 :: "rat \<Rightarrow> int" where
  "ilog2 x =
     (let (p, q) = quotient_of x;
          e0 = int (bits (nat p)) - int (bits (nat q))
      in if pow2 e0 \<le> x then e0 else e0 - 1)"

definition rne :: "rat \<Rightarrow> int" where
  "rne y =
     (let f = \<lfloor>y\<rfloor>; r = y - of_int f
      in if r < 1 / 2 then f
         else if 1 / 2 < r then f + 1
         else if even f then f else f + 1)"

definition fl :: "rat \<Rightarrow> rat" where
  "fl x =
     (if x = 0 then 0
      else (let a = \<bar>x\<bar>; u = pow2 (ilog2 a - 52)
            in sgn x * (of_int (rne (a / u)) * u)))"

text \<open>\<^verbatim>\<open>Math.round\<close>: the nearest integer, a tie going up.\<close>

definition Math_round :: "rat \<Rightarrow> int" where
  "Math_round x = \<lfloor>x + 1 / 2\<rfloor>"

text \<open>\<^verbatim>\<open>Math.round((seconds / (goalHours * 3600)) * 100)\<close> and
  \<^verbatim>\<open>Math.round((seconds / 3600) * 100) / 100\<close>.\<close>

definition progress_of :: "nat \<Rightarrow> nat \<Rightarrow> int" where
  "progress_of goalHours seconds =
     Math_round (fl (fl (of_nat seconds / of_nat (goalHours * 3600)) * 100))"

definition hours_of :: "nat \<Rightarrow> rat" where
  "hours_of seconds =
     fl (of_int (Math_round (fl (fl (of_nat seconds / 3600) * 100))) / 100)"

text \<open>The width of a progress bar in the view: \<^verbatim>\<open>Math.min(progress, 100)\<close> percent.\<close>

definition bar_width :: "int \<Rightarrow> int" where
  "bar_width progress = min progress 100"

section \<open>Upstream results and worklog records\<close>

text \<open>
  A payload that the server only passes on is kept as its text. A call to the upstream
  interface either returns its data or fails with an error object, of which the handlers
  read \<^verbatim>\<open>error.response?.data\<close> and \<^verbatim>\<open>error.message\<close>; a failed call is the left
  injection of a sum, and each \<^verbatim>\<open>catch\<close> is a case distinction on it. Payloads are
  well-formed: only the fields the handlers read are kept, with their types.
\<close>

type_synonym json = string

record up_error =
  response_data :: "json option"
  message :: string


record issue =
  key :: string
  fields_summary :: string

record worklog =
  wl_id :: string
  author_accountId :: string
  started :: int
  timeSpentSeconds :: nat
  wl_comment :: "json option"

record logged =
  lg_issueKey :: string
  lg_summary :: string
  lg_timeSpentSeconds :: nat
  lg_started :: int

record day_total =
  date :: int
  dayName :: string
  totalSeconds :: nat
  worklogs :: "logged list"

record daily_entry = day_total +
  totalHours :: rat
  goalHours :: nat
  progress :: int

record daily_response =
  weekStart :: int
  weekEnd :: int
  dailyData :: "daily_entry list"
  week_totalSeconds :: nat
  week_totalHours :: rat
  weeklyGoalHours :: nat
  weeklyProgress :: int

record issue_worklog =
  iw_id :: string
  iw_timeSpentSeconds :: nat
  iw_started :: int
  iw_comment :: "json option"

record issue_summary =
  is_issueKey :: string
  is_summary :: string
  is_totalSeconds :: nat
  is_worklogs :: "issue_worklog list"

record summary_response =
  sr_period :: string
  sr_totalSeconds :: nat
  sr_totalHours :: rat
  worklogsByIssue :: "issue_summary list"

section \<open>The weekly timesheet: \<^verbatim>\<open>GET /api/worklogs/daily\<close>\<close>

definition dayNames :: "string list" where
  "dayNames = [''Domingo'', ''Lunes'', ''Martes'', ''Mi'' @ [CHR 0xE9] @ ''rcoles'', ''Jueves'',
     ''Viernes'', ''S'' @ [CHR 0xE1] @ ''bado'']"

definition daysToMonday :: "int \<Rightarrow> int" where
  "daysToMonday currentDay = (if currentDay = 0 then 6 else currentDay - 1)"

definition daysToSunday :: "int \<Rightarrow> int" where
  "daysToSunday currentDay = (if currentDay = 0 then 0 else 7 - currentDay)"

definition week_start :: "int \<Rightarrow> int \<Rightarrow> int" where
  "week_start tz now =
     (let currentDay = getDay tz now;
          startDate = setDate tz now (getDate tz now - daysToMonday currentDay)
      in setHours tz startDate 0 0 0 0)"

definition week_end :: "int \<Rightarrow> int \<Rightarrow> int" where
  "week_end tz now =
     (let currentDay = getDay tz now;
          endDate = setDate tz now (getDate tz now + daysToSunday currentDay)
      in setHours tz endDate 23 59 59 999)"

text \<open>The object \<^verbatim>\<open>dailyTotals\<close> is an association list in insertion order: assigning to a
  key that exists replaces the value in place, and \<^verbatim>\<open>Object.values\<close> lists the values.\<close>

definition init_day :: "int \<Rightarrow> int \<Rightarrow> (int \<times> day_total) list \<Rightarrow> int \<Rightarrow> (int \<times> day_total) list" where
  "init_day tz startDate dailyTotals i =
     (let d = setDate tz startDate (getDate tz startDate + i);
          dateStr = toISODate d
      in AList.update dateStr
           \<lparr>date = dateStr, dayName = dayNames ! nat (getDay tz d), totalSeconds = 0, worklogs = []\<rparr>
           dailyTotals)"

definition init_dailyTotals :: "int \<Rightarrow> int \<Rightarrow> (int \<times> day_total) list" where
  "init_dailyTotals tz startDate = foldl (init_day tz startDate) [] [0, 1, 2, 3, 4, 5, 6]"

definition add_daily ::
  "string \<Rightarrow> int \<Rightarrow> int \<Rightarrow> issue \<Rightarrow> (int \<times> day_total) list \<times> nat \<Rightarrow> worklog
     \<Rightarrow> (int \<times> day_total) list \<times> nat" where
  "add_daily me startDate endDate iss st w =
     (case st of (dailyTotals, totalSec) \<Rightarrow>
        if author_accountId w = me then
          if startDate \<le> started w \<and> started w \<le> endDate then
            (let dateStr = toISODate (started w) in
             case map_of dailyTotals dateStr of
               Some _ \<Rightarrow>
                 (AList.map_entry dateStr
                    (\<lambda>d. d\<lparr>totalSeconds := totalSeconds d + timeSpentSeconds w,
                            worklogs := worklogs d @
                              [\<lparr>lg_issueKey = key iss, lg_summary = fields_summary iss,
                                lg_timeSpentSeconds = timeSpentSeconds w,
                                lg_started = started w\<rparr>]\<rparr>)
                    dailyTotals,
                  totalSec + timeSpentSeconds w)
             | None \<Rightarrow> st)
          else st
        else st)"

text \<open>One issue of the outer loop: a failed fetch of its worklogs is caught inside the loop,
  logged, and the loop goes on with the next issue.\<close>

definition daily_issue ::
  "string \<Rightarrow> int \<Rightarrow> int \<Rightarrow> (string \<Rightarrow> up_error + worklog list)
     \<Rightarrow> (int \<times> day_total) list \<times> nat \<Rightarrow> issue \<Rightarrow> (int \<times> day_total) list \<times> nat" where
  "daily_issue me startDate endDate fetch st iss =
     (case fetch (key iss) of
        Inl err \<Rightarrow> st
      | Inr wls \<Rightarrow> foldl (add_daily me startDate endDate iss) st wls)"

definition to_entry :: "day_total \<Rightarrow> daily_entry" where
  "to_entry d =
     day_total.extend d
       (daily_entry.fields (hours_of (totalSeconds d)) 8 (progress_of 8 (totalSeconds d)))"

definition daily_report ::
  "int \<Rightarrow> int \<Rightarrow> string \<Rightarrow> issue list \<Rightarrow> (string \<Rightarrow> up_error + worklog list) \<Rightarrow> daily_response" where
  "daily_report tz now me issues fetch =
     (let startDate = week_start tz now;
          endDate = week_end tz now;
          (dailyTotals, totalSec) =
             foldl (daily_issue me startDate endDate fetch) (init_dailyTotals tz startDate, 0) issues
      in \<lparr>weekStart = toISODate startDate,
          weekEnd = toISODate endDate,
          dailyData = map (to_entry \<circ> snd) dailyTotals,
          week_totalSeconds = totalSec,
          week_totalHours = hours_of totalSec,
          weeklyGoalHours = 40,
          weeklyProgress = progress_of 40 totalSec\<rparr>)"

section \<open>The worklog summary: \<^verbatim>\<open>GET /api/worklogs\<close>\<close>





text \<open>Reading aids for the statements about the two reports: the local day of an instant,
  the Monday on or before a day, the entries a period counts, and the seconds they sum to.\<close>

definition local_day :: "int \<Rightarrow> int \<Rightarrow> int" where
  "local_day tz t = Day (LocalTime tz t)"

definition monday_of :: "int \<Rightarrow> int" where
  "monday_of d = d - (d + 3) mod 7"



definition bucket :: "int \<Rightarrow> int \<Rightarrow> int \<Rightarrow> int \<times> day_total" where
  "bucket tz startDate i =
     (Day startDate + i,
      \<lparr>date = Day startDate + i,
       dayName = dayNames ! nat ((Day (startDate + tz) + i + 4) mod 7),
       totalSeconds = 0, worklogs = []\<rparr>)"



section \<open>Responses and route handlers\<close>






text \<open>The bodies the handlers send: a payload passed on as it is, \<^verbatim>\<open>{ success: true, data }\<close>,
  \<^verbatim>\<open>{ error, details }\<close> (a key whose value is \<^verbatim>\<open>undefined\<close> is left out of the text sent,
  hence the option), the two bodies of the health check, and the two reports.\<close>

datatype body =
    Payload json
  | SuccessData json
  | ErrorResult string "json option"
  | HealthOk string
  | HealthError string json
  | DailyBody daily_response
  | SummaryBody summary_response

record response =
  status :: nat
  body :: body

definition ok :: "body \<Rightarrow> response" where
  "ok b = \<lparr>status = 200, body = b\<rparr>"




























text \<open>An upstream call that gives the same answer whatever it is asked.\<close>

definition answering :: "'b \<Rightarrow> 'a \<Rightarrow> 'b" where
  "answering r x = r"

section \<open>Concrete runs\<close>

text \<open>A server six hours west of UTC on Sunday 2024-01-21 at 21:00 local time (day 19743;
  the instant is 2024-01-22T03:00Z), the user \<open>me\<close>, one issue, and worklogs of that user
  started at a given instant.\<close>

definition tz_west :: int where
  "tz_west = - 21600000"

definition sunday_evening :: int where
  "sunday_evening = 19744 * 86400000 + 3 * 3600000"

definition example_issue :: issue where
  "example_issue = \<lparr>key = ''K-1'', fields_summary = ''Example''\<rparr>"

definition wl_at :: "int \<Rightarrow> nat \<Rightarrow> worklog" where
  "wl_at t n =
     \<lparr>wl_id = ''1'', author_accountId = ''me'', started = t, timeSpentSeconds = n,
      wl_comment = None\<rparr>"

text \<open>Monday 2024-01-15 at 20:00 local time and Sunday 2024-01-21 at 20:00 local time.\<close>

definition monday_8pm :: int where
  "monday_8pm = 19738 * 86400000 + 2 * 3600000"

definition sunday_8pm :: int where
  "sunday_8pm = 19744 * 86400000 + 2 * 3600000"

definition day_row :: "daily_entry \<Rightarrow> int \<times> string \<times> nat" where
  "day_row d = (date d, dayName d, totalSeconds d)"






definition example_report :: daily_response where
  "example_report =
     daily_report tz_west sunday_evening ''me'' [example_issue]
       (answering (Inr [wl_at monday_8pm 3600, wl_at sunday_8pm 7200]))"


section \<open>The duration parser: proofs\<close>

lemma star_m_greedy:
  "k (dropWhile (in_cls c) s) \<noteq> None \<Longrightarrow> star_m c s k = k (dropWhile (in_cls c) s)"
  by (induction s) (auto split: option.splits)

lemma star_m_class_fail:
  "(\<And>x xs. in_cls c x \<Longrightarrow> k (x # xs) = None) \<Longrightarrow> star_m c s k = k (dropWhile (in_cls c) s)"
  by (induction s) (auto split: option.splits)

lemma take_takeWhile:
  "take (length s - length (dropWhile P s)) s = takeWhile P s"
proof -
  have "length s = length (takeWhile P s) + length (dropWhile P s)"
    by (metis length_append takeWhile_dropWhile_id)
  then have "length s - length (dropWhile P s) = length (takeWhile P s)" by simp
  then show ?thesis
    by (metis append_eq_conv_conj takeWhile_dropWhile_id)
qed

lemma length_dropWhile_less:
  "takeWhile P s \<noteq> [] \<Longrightarrow> dropWhile P s = y # ys \<Longrightarrow> length (dropWhile Q ys) < length s"
proof -
  assume a: "takeWhile P s \<noteq> []" and b: "dropWhile P s = y # ys"
  have "length (dropWhile Q ys) \<le> length ys" by (rule length_dropWhile_le)
  moreover have "length ys < length (dropWhile P s)" using b by simp
  moreover have "length (dropWhile P s) \<le> length s" by (rule length_dropWhile_le)
  ultimately show ?thesis by linarith
qed

text \<open>The digits of a token followed by its unit letter, then the continuation.\<close>

lemma m_digits_unit:
  assumes u: "\<not> is_digit u"
  shows "m (Cat (Group n (Plus Digit)) (Lit u)) s cs k =
     (case lex_token u s of
        None \<Rightarrow> None
      | Some (ds, ys) \<Rightarrow> k ys (cs(n \<mapsto> ds)))"
proof (cases s)
  case Nil
  then show ?thesis by (simp add: lex_token_def)
next
  case (Cons x xs)
  show ?thesis
  proof (cases "is_digit x")
    case False
    then show ?thesis using Cons by (simp add: lex_token_def)
  next
    case True
    let ?K = "\<lambda>r. m (Lit u) r (cs(n \<mapsto> take (length s - length r) s)) k"
    have fail: "\<And>y ys. in_cls Digit y \<Longrightarrow> ?K (y # ys) = None"
      using u by auto
    have "m (Cat (Group n (Plus Digit)) (Lit u)) s cs k = star_m Digit xs ?K"
      using Cons True by simp
    also have "\<dots> = ?K (dropWhile (in_cls Digit) xs)"
      using fail by (rule star_m_class_fail)
    also have "dropWhile (in_cls Digit) xs = dropWhile is_digit s"
      using Cons True by (simp add: in_cls.simps[abs_def] cong: dropWhile_cong)
    finally have eq: "m (Cat (Group n (Plus Digit)) (Lit u)) s cs k = ?K (dropWhile is_digit s)" .
    have tw: "takeWhile is_digit s \<noteq> []" using Cons True by simp
    show ?thesis
    proof (cases "dropWhile is_digit s")
      case Nil
      then show ?thesis unfolding eq by (simp add: lex_token_def del: dropWhile_eq_Nil_conv)
    next
      case (Cons y ys)
      then show ?thesis unfolding eq using tw take_takeWhile[of s is_digit]
        by (simp add: lex_token_def del: dropWhile_eq_Nil_conv)
    qed
  qed
qed


lemma lex_token_Some:
  assumes "lex_token u s = Some (ds, ys)"
  shows "s = ds @ u # ys" and "digits ds"
proof -
  from assms obtain y where d: "dropWhile is_digit s = y # ys" and t: "takeWhile is_digit s \<noteq> []"
    and yu: "y = u" and ds: "ds = takeWhile is_digit s"
    by (auto simp: lex_token_def split: list.splits if_splits simp del: dropWhile_eq_Nil_conv)
  have "s = takeWhile is_digit s @ dropWhile is_digit s" by simp
  then show "s = ds @ u # ys" using d yu ds by simp
  have "list_all is_digit (takeWhile is_digit s)"
    by (simp add: list_all_iff) (meson set_takeWhileD)
  then show "digits ds" using t ds by (simp add: digits_def)
qed

lemma m_tok:
  assumes u: "\<not> is_digit u" and k: "\<And>r c. k r c \<noteq> None"
  shows "m (tok n u) s cs k = k (snd (read_token u s)) (upd n (fst (read_token u s)) cs)"
proof -
  let ?k' = "\<lambda>r c. if length r < length s then k r c else None"
  have cat: "m (Cat (Group n (Plus Digit)) (Cat (Lit u) (Star Space))) s cs ?k' =
             m (Cat (Group n (Plus Digit)) (Lit u)) s cs (\<lambda>r c. m (Star Space) r c ?k')"
    by simp
  show ?thesis
  proof (cases "lex_token u s")
    case None
    then show ?thesis
      unfolding tok_def m.simps(5) cat m_digits_unit[OF u]
      by (simp add: read_token_def upd_def)
  next
    case (Some p)
    obtain ds ys where p: "p = (ds, ys)" by (cases p)
    have s: "s = ds @ u # ys" using lex_token_Some(1) Some p by simp
    have len: "length (dropWhile is_space ys) < length s"
      using length_dropWhile_le[of is_space ys] s by simp
    obtain y where y: "k (dropWhile is_space ys) (cs(n \<mapsto> ds)) = Some y"
      using k[of "dropWhile is_space ys" "cs(n \<mapsto> ds)"] by auto
    have "star_m Space ys (\<lambda>r. ?k' r (cs(n \<mapsto> ds))) = ?k' (dropWhile (in_cls Space) ys) (cs(n \<mapsto> ds))"
      by (rule star_m_greedy) (use len y in \<open>simp add: in_cls.simps[abs_def]\<close>)
    then have "m (Star Space) ys (cs(n \<mapsto> ds)) ?k' = Some y"
      using len y by (simp add: in_cls.simps[abs_def])
    then show ?thesis
      unfolding tok_def m.simps(5) cat m_digits_unit[OF u]
      using Some p y by (simp add: read_token_def upd_def)
  qed
qed

lemma m_tok_m: "m tok_m s cs (\<lambda>_ c. Some c) = Some (upd 4 (map_option fst (lex_token CHR ''m'' s)) cs)"
proof -
  have u: "\<not> is_digit CHR ''m''" by (simp add: is_digit_def)
  show ?thesis
  proof (cases "lex_token CHR ''m'' s")
    case None
    then show ?thesis unfolding tok_m_def m.simps(5) m_digits_unit[OF u] by (simp add: upd_def)
  next
    case (Some p)
    obtain ds ys where p: "p = (ds, ys)" by (cases p)
    have s: "s = ds @ CHR ''m'' # ys" using lex_token_Some(1) Some p by simp
    then have "length ys < length s" by simp
    then show ?thesis
      unfolding tok_m_def m.simps(5) m_digits_unit[OF u]
      using Some p by (simp add: upd_def)
  qed
qed

lemma scan_eq:
  "scan s =
     (let s1 = snd (read_token CHR ''w'' s);
          s2 = snd (read_token CHR ''d'' s1);
          s3 = snd (read_token CHR ''h'' s2)
      in (fst (read_token CHR ''w'' s), fst (read_token CHR ''d'' s1),
          fst (read_token CHR ''h'' s2), map_option fst (lex_token CHR ''m'' s3)))"
  by (simp add: scan_def split_def Let_def)

lemma m_timeRegex:
  "m timeRegex s cs (\<lambda>_ c. Some c) =
     (case scan s of (w, d, h, mm) \<Rightarrow> Some (upd 4 mm (upd 3 h (upd 2 d (upd 1 w cs)))))"
proof -
  let ?kf = "\<lambda>(_::string) (c::caps). Some c"
  let ?k3 = "\<lambda>r c. m tok_m r c ?kf"
  let ?k2 = "\<lambda>r c. m (tok 3 CHR ''h'') r c ?k3"
  let ?k1 = "\<lambda>r c. m (tok 2 CHR ''d'') r c ?k2"
  have uw: "\<not> is_digit CHR ''w''" and ud: "\<not> is_digit CHR ''d''" and uh: "\<not> is_digit CHR ''h''"
    by (simp_all add: is_digit_def)
  have t3: "\<And>r c. ?k3 r c \<noteq> None" by (simp add: m_tok_m)
  have e2: "\<And>r c. ?k2 r c = ?k3 (snd (read_token CHR ''h'' r)) (upd 3 (fst (read_token CHR ''h'' r)) c)"
    by (rule m_tok[OF uh t3])
  have t2: "\<And>r c. ?k2 r c \<noteq> None" unfolding e2 by (rule t3)
  have e1: "\<And>r c. ?k1 r c = ?k2 (snd (read_token CHR ''d'' r)) (upd 2 (fst (read_token CHR ''d'' r)) c)"
    by (rule m_tok[OF ud t2])
  have t1: "\<And>r c. ?k1 r c \<noteq> None" unfolding e1 by (rule t2)
  have "m timeRegex s cs ?kf = m (tok 1 CHR ''w'') s cs ?k1"
    by (simp add: timeRegex_def)
  also have "\<dots> = ?k1 (snd (read_token CHR ''w'' s)) (upd 1 (fst (read_token CHR ''w'' s)) cs)"
    by (rule m_tok[OF uw t1])
  also have "\<dots> = ?k2 (snd (read_token CHR ''d'' (snd (read_token CHR ''w'' s))))
      (upd 2 (fst (read_token CHR ''d'' (snd (read_token CHR ''w'' s))))
         (upd 1 (fst (read_token CHR ''w'' s)) cs))"
    by (rule e1)
  also have "\<dots> = ?k3 (snd (read_token CHR ''h'' (snd (read_token CHR ''d'' (snd (read_token CHR ''w'' s))))))
      (upd 3 (fst (read_token CHR ''h'' (snd (read_token CHR ''d'' (snd (read_token CHR ''w'' s))))))
        (upd 2 (fst (read_token CHR ''d'' (snd (read_token CHR ''w'' s))))
          (upd 1 (fst (read_token CHR ''w'' s)) cs)))"
    by (rule e2)
  finally show ?thesis
    by (simp only: m_tok_m scan_eq Let_def prod.case)
qed

lemma exec_timeRegex:
  "exec timeRegex s =
     (case scan s of (w, d, h, mm) \<Rightarrow> Some (upd 4 mm (upd 3 h (upd 2 d (upd 1 w (\<lambda>_. None))))))"
  by (cases s) (simp_all add: m_timeRegex split: prod.splits)


lemma upd_lookup:
  "upd 4 mm (upd 3 h (upd 2 d (upd (Suc 0) w (\<lambda>_. None)))) (Suc 0) = w"
  "upd 4 mm (upd 3 h (upd 2 d (upd (Suc 0) w (\<lambda>_. None)))) 2 = d"
  "upd 4 mm (upd 3 h (upd 2 d (upd (Suc 0) w (\<lambda>_. None)))) 3 = h"
  "upd 4 mm (upd 3 h (upd 2 d (upd (Suc 0) w (\<lambda>_. None)))) 4 = mm"
  by (simp_all add: upd_def split: option.splits)

lemma is_digit_val: "is_digit c \<longleftrightarrow> digit_val c < 10"
  by (auto simp: is_digit_def digit_val_def Let_def)

lemma is_digit_not_space: "is_digit c \<Longrightarrow> \<not> is_space c"
  by (auto simp: is_digit_def is_space_def)

lemma is_digit_not_sign: "is_digit c \<Longrightarrow> c \<noteq> CHR ''+'' \<and> c \<noteq> CHR ''-'' \<and> c \<noteq> CHR ''x'' \<and> c \<noteq> CHR ''X''"
  by (auto simp: is_digit_def)

lemma parseInt_digits:
  assumes "digits ds"
  shows "parseInt ds = Num (int (radix_val 10 ds))"
proof -
  from assms obtain c r where ds: "ds = c # r" and c: "is_digit c" and r: "list_all is_digit r"
    by (cases ds) (auto simp: digits_def)
  have s1: "dropWhile is_space ds = ds" using ds c is_digit_not_space by simp
  have nohex: "\<not> (case ds of a # b # _ \<Rightarrow> a = CHR ''0'' \<and> (b = CHR ''x'' \<or> b = CHR ''X'') | _ \<Rightarrow> False)"
    using ds r by (auto simp: is_digit_def split: list.splits)
  have tw: "takeWhile (\<lambda>c. digit_val c < 10) ds = ds"
    using ds c r by (simp add: is_digit_val[symmetric] list_all_iff)
  show ?thesis
    unfolding parseInt_def Let_def s1
    using nohex tw ds c is_digit_not_sign[OF c] by simp
qed

lemma parseInt_or_zero: "token_ok g \<Longrightarrow> parseInt (or_zero g) = Num (token_val g)"
proof (cases g)
  case None
  have "digits ''0''" by (simp add: digits_def is_digit_def)
  then have "parseInt ''0'' = Num (int (radix_val 10 ''0''))" by (rule parseInt_digits)
  then show ?thesis using None by (simp add: or_zero_def radix_val_def digit_val_def)
next
  case (Some ds)
  assume "token_ok g"
  then have d: "digits ds" using Some by simp
  then have "ds \<noteq> []" by (simp add: digits_def)
  then show ?thesis using Some parseInt_digits[OF d] by (simp add: or_zero_def)
qed

lemma read_token_ok: "token_ok (fst (read_token u s))"
  by (auto simp: read_token_def lex_token_Some(2) split: option.splits)

lemma lex_token_ok: "token_ok (map_option fst (lex_token u s))"
  by (cases "lex_token u s") (auto simp: lex_token_Some(2))

lemma scan_ok: "scan s = (w, d, h, mm) \<Longrightarrow> token_ok w \<and> token_ok d \<and> token_ok h \<and> token_ok mm"
  unfolding scan_eq Let_def using read_token_ok lex_token_ok by auto

lemma parse_scan:
  "parseTimeToSeconds s =
     (case scan (trim s) of (w, d, h, mm) \<Rightarrow>
        Some (Num (token_val w * 5 * 8 * 3600 + token_val d * 8 * 3600
                   + token_val h * 3600 + token_val mm * 60)))"
proof -
  obtain w d h mm where sc: "scan (trim s) = (w, d, h, mm)" by (metis prod_cases4)
  from scan_ok[OF sc] have ok: "token_ok w" "token_ok d" "token_ok h" "token_ok mm" by simp_all
  show ?thesis
    unfolding parseTimeToSeconds_def exec_timeRegex sc
    by (simp add: upd_lookup parseInt_or_zero ok)
qed


subsection \<open>Trailing white space\<close>




lemma rstrip_prefix: "\<exists>t. s = rstrip s @ t"
  by (induction s) (auto simp: Let_def)







subsection \<open>Tokens anywhere in a string\<close>

lemma has_token_suffix: "has_token ys \<Longrightarrow> has_token (xs @ ys)"
proof (induction xs)
  case Nil
  then show ?case by simp
next
  case (Cons x xs)
  then have "has_token (xs @ ys)" by simp
  then show ?case by (cases "xs @ ys") auto
qed

lemma has_token_prefix: "has_token xs \<Longrightarrow> has_token (xs @ ys)"
  by (induction xs rule: has_token.induct) auto

lemma lex_token_has_token:
  assumes "lex_token u s = Some (ds, ys)" and "is_unit u"
  shows "has_token s"
proof -
  have s: "s = ds @ u # ys" and d: "digits ds" using lex_token_Some assms(1) by simp_all
  from d have ne: "ds \<noteq> []" and l: "is_digit (last ds)" by (auto simp: digits_def list_all_iff)
  have "s = butlast ds @ ([last ds, u] @ ys)" using s ne by (metis append.assoc append_Cons append_Nil append_butlast_last_id)
  moreover have "has_token ([last ds, u] @ ys)" using l assms(2) by simp
  ultimately show ?thesis using has_token_suffix has_token_prefix by metis
qed

lemma has_token_trim: "has_token (trim s) \<Longrightarrow> has_token s"
proof -
  assume a: "has_token (trim s)"
  obtain t where t: "dropWhile is_space s = trim s @ t" unfolding trim_def using rstrip_prefix by blast
  then have "has_token (dropWhile is_space s)" using a has_token_prefix by simp
  then have "has_token (takeWhile is_space s @ dropWhile is_space s)" by (rule has_token_suffix)
  then show ?thesis by simp
qed

lemma no_token_read:
  assumes "\<not> has_token s" and "is_unit u"
  shows "read_token u s = (None, s)" and "lex_token u s = None"
proof -
  show l: "lex_token u s = None" using lex_token_has_token assms by (cases "lex_token u s") auto
  show "read_token u s = (None, s)" by (simp add: read_token_def l)
qed

lemma no_token_scan: "\<not> has_token s \<Longrightarrow> scan s = (None, None, None, None)"
  unfolding scan_eq Let_def by (simp add: no_token_read is_unit_def)

lemma no_token_parse:
  assumes "\<not> has_token s"
  shows "parseTimeToSeconds s = Some (Num 0)"
proof -
  have "\<not> has_token (trim s)" using assms has_token_trim by blast
  then have "scan (trim s) = (None, None, None, None)" by (rule no_token_scan)
  then show ?thesis by (simp add: parse_scan)
qed


subsection \<open>Durations written token by token\<close>








subsection \<open>Decimal text\<close>

lemma of_char_digit: "n < 10 \<Longrightarrow> (of_char (char_of (48 + n)) :: nat) = 48 + n"
  by (simp add: of_char_of)




section \<open>Weeks, months and the two reports: proofs\<close>

lemma msPerDay_pos: "0 < msPerDay"
  by (simp add: msPerDay_def)




lemma MakeDate_Day: "MakeDate (Day x) (TimeWithinDay x) = x"
  unfolding Day_def MakeDate_def TimeWithinDay_def by simp

lemma setDate_getDate: "setDate tz t (getDate tz t + n) = t + n * msPerDay"
proof -
  let ?l = "LocalTime tz t"
  have "MakeDate (Day ?l + n) (TimeWithinDay ?l) = ?l + n * msPerDay"
    using MakeDate_Day[of ?l] by (simp add: MakeDate_def algebra_simps)
  then show ?thesis
    by (simp add: setDate_def getDate_def Let_def UTC_def LocalTime_def algebra_simps)
qed

lemma setDate_getDate_minus: "setDate tz t (getDate tz t - n) = t - n * msPerDay"
  using setDate_getDate[of tz t "- n"] by simp

lemma setHours_eq:
  "setHours tz t h mi s ms = Day (t + tz) * msPerDay + MakeTime h mi s ms - tz"
  by (simp add: setHours_def UTC_def MakeDate_def LocalTime_def)

lemma Day_add_days: "Day (x + n * msPerDay) = Day x + n"
  unfolding Day_def msPerDay_def by simp

lemma week_start_eq:
  "week_start tz now = (Day (now + tz) - daysToMonday (getDay tz now)) * msPerDay - tz"
proof -
  have "Day (now - daysToMonday (getDay tz now) * msPerDay + tz) = Day (now + tz) - daysToMonday (getDay tz now)"
    using Day_add_days[of "now + tz" "- daysToMonday (getDay tz now)"] by (simp add: algebra_simps)
  then show ?thesis
    by (simp add: week_start_def Let_def setDate_getDate_minus setHours_eq MakeTime_def)
qed

lemma week_end_eq:
  "week_end tz now = (Day (now + tz) + daysToSunday (getDay tz now)) * msPerDay + (msPerDay - 1) - tz"
proof -
  have "Day (now + daysToSunday (getDay tz now) * msPerDay + tz) = Day (now + tz) + daysToSunday (getDay tz now)"
    using Day_add_days[of "now + tz" "daysToSunday (getDay tz now)"] by (simp add: algebra_simps)
  then show ?thesis
    by (simp add: week_end_def Let_def setDate_getDate setHours_eq MakeTime_def msPerDay_def)
qed



subsection \<open>Months\<close>

lemma DaysInMonth_pos: "0 < DaysInMonth k"
  by (simp add: DaysInMonth_def Let_def)

lemma MonthStart_nonneg: "0 \<le> MonthStart k"
  by (induction k) (use DaysInMonth_pos in \<open>auto simp: less_imp_le\<close>)







lemma Day_end [simp]: "Day (d * 86400000 + 86399999) = d"
  unfolding Day_def msPerDay_def by linarith





subsection \<open>The seven day buckets\<close>

lemma init_day_eq:
  "init_day tz startDate al i = AList.update (Day startDate + i) (snd (bucket tz startDate i)) al"
proof -
  have d: "setDate tz startDate (getDate tz startDate + i) = startDate + i * msPerDay"
    by (rule setDate_getDate)
  have "Day (startDate + i * msPerDay + tz) = Day (startDate + tz) + i"
    using Day_add_days[of "startDate + tz" i] by (simp add: algebra_simps)
  then show ?thesis
    unfolding init_day_def Let_def d
    by (simp add: bucket_def toISODate_def Day_add_days getDay_def WeekDay_def LocalTime_def)
qed

lemma init_dailyTotals_eq:
  "init_dailyTotals tz startDate = map (bucket tz startDate) [0, 1, 2, 3, 4, 5, 6]"
  unfolding init_dailyTotals_def
  by (simp add: init_day_eq) (simp add: bucket_def)









lemma to_entry_fields [simp]:
  "totalSeconds (to_entry d) = totalSeconds d"
  "worklogs (to_entry d) = worklogs d"
  "date (to_entry d) = date d"
  "dayName (to_entry d) = dayName d"
  "progress (to_entry d) = progress_of 8 (totalSeconds d)"
  "goalHours (to_entry d) = 8"
  "totalHours (to_entry d) = hours_of (totalSeconds d)"
  by (simp_all add: to_entry_def day_total.defs daily_entry.defs)

subsection \<open>The seconds a period counts\<close>





subsection \<open>The subtask issue type\<close>

subsection \<open>The concrete week\<close>

lemma ex_week:
  "week_start tz_west sunday_evening = 19737 * 86400000 + 21600000"
  "week_end tz_west sunday_evening = 19744 * 86400000 + 21599999"
  unfolding week_start_eq week_end_eq
  by (simp_all add: tz_west_def sunday_evening_def Day_def msPerDay_def getDay_def WeekDay_def
        LocalTime_def daysToMonday_def daysToSunday_def)

lemma ex_init:
  "init_dailyTotals tz_west (19737 * 86400000 + 21600000) =
     [(19737, \<lparr>date = 19737, dayName = ''Lunes'', totalSeconds = 0, worklogs = []\<rparr>),
      (19738, \<lparr>date = 19738, dayName = ''Martes'', totalSeconds = 0, worklogs = []\<rparr>),
      (19739, \<lparr>date = 19739, dayName = dayNames ! 3, totalSeconds = 0, worklogs = []\<rparr>),
      (19740, \<lparr>date = 19740, dayName = ''Jueves'', totalSeconds = 0, worklogs = []\<rparr>),
      (19741, \<lparr>date = 19741, dayName = ''Viernes'', totalSeconds = 0, worklogs = []\<rparr>),
      (19742, \<lparr>date = 19742, dayName = dayNames ! 6, totalSeconds = 0, worklogs = []\<rparr>),
      (19743, \<lparr>date = 19743, dayName = ''Domingo'', totalSeconds = 0, worklogs = []\<rparr>)]"
  unfolding init_dailyTotals_eq
  by (simp add: bucket_def tz_west_def Day_def msPerDay_def dayNames_def)

lemma ex_rows:
  "map day_row (dailyData example_report)
   = [(19737, ''Lunes'', 0), (19738, ''Martes'', 3600), (19739, dayNames ! 3, 0),
      (19740, ''Jueves'', 0), (19741, ''Viernes'', 0), (19742, dayNames ! 6, 0),
      (19743, ''Domingo'', 0)]"
  "week_totalSeconds example_report = 3600"
  unfolding example_report_def daily_report_def Let_def ex_week ex_init
  by (simp_all add: daily_issue_def answering_def add_daily_def wl_at_def monday_8pm_def
        sunday_8pm_def toISODate_def Day_def msPerDay_def example_issue_def day_row_def Let_def)




section \<open>Double-precision percentages: proofs\<close>

lemma bits_bounds: "0 < n \<Longrightarrow> 2 ^ (bits n - 1) \<le> n \<and> n < 2 ^ bits n"
proof (induction n rule: bits.induct)
  case (1 n)
  show ?case
  proof (cases "n div 2 = 0")
    case True
    then have "n = 1" using 1(2) by linarith
    then show ?thesis by (simp add: bits.simps)
  next
    case False
    let ?m = "n div 2"
    have m: "0 < ?m" using False by simp
    have ih: "2 ^ (bits ?m - 1) \<le> ?m \<and> ?m < 2 ^ bits ?m" using 1(1) 1(2) m by simp
    have bm: "0 < bits ?m" using m by (subst bits.simps) simp
    have bn: "bits n = Suc (bits ?m)" using 1(2) by (subst bits.simps) simp
    have "(2::nat) ^ bits ?m = 2 * 2 ^ (bits ?m - 1)" using bm by (cases "bits ?m") simp_all
    then have lo: "2 ^ bits ?m \<le> n" using ih by linarith
    have "n < 2 * (?m + 1)" by presburger
    then have hi: "n < 2 * 2 ^ bits ?m" using ih by linarith
    show ?thesis unfolding bn using lo hi by simp
  qed
qed

lemma pow2_powi: "pow2 e = 2 powi e"
  by (simp add: pow2_def power_int_def inverse_eq_divide power_one_over)

lemma pow2_pos: "0 < pow2 e"
  by (simp add: pow2_powi)

lemma pow2_add: "pow2 (a + b) = pow2 a * pow2 b"
  by (simp add: pow2_powi power_int_add)

lemma pow2_Suc: "pow2 (e + 1) = 2 * pow2 e"
proof -
  have "pow2 1 = 2" by (simp add: pow2_def)
  then show ?thesis by (simp add: pow2_add)
qed

lemma pow2_diff_nat: "pow2 (int a - int b) = 2 ^ a / 2 ^ b"
  by (simp add: pow2_powi power_int_diff)

lemma ilog2_bounds:
  assumes "0 < x"
  shows "pow2 (ilog2 x) \<le> x \<and> x < pow2 (ilog2 x + 1)"
proof -
  obtain p q where pq: "quotient_of x = (p, q)" by (cases "quotient_of x")
  have q: "0 < q" using pq by (rule quotient_of_denom_pos)
  have x: "x = of_int p / of_int q" using pq by (rule quotient_of_div)
  have p: "0 < p" using assms q unfolding x by (simp add: zero_less_divide_iff)
  let ?P = "bits (nat p)" and ?Q = "bits (nat q)"
  have bp: "2 ^ (?P - 1) \<le> nat p \<and> nat p < 2 ^ ?P" using p by (intro bits_bounds) simp
  have bq: "2 ^ (?Q - 1) \<le> nat q \<and> nat q < 2 ^ ?Q" using q by (intro bits_bounds) simp
  have Ppos: "0 < ?P" using p by (subst bits.simps) simp
  have Qpos: "0 < ?Q" using q by (subst bits.simps) simp
  have p1: "(2::rat) ^ (?P - 1) \<le> of_int p" 
  proof -
    have "(2::nat) ^ (?P - 1) \<le> nat p" using bp by simp
    then have "int ((2::nat) ^ (?P - 1)) \<le> p" using p by linarith
    then have "(of_int (int ((2::nat) ^ (?P - 1))) :: rat) \<le> of_int p" by (simp only: of_int_le_iff)
    then show ?thesis by simp
  qed
  have p2: "(of_int p :: rat) < 2 ^ ?P"
  proof -
    have "nat p < (2::nat) ^ ?P" using bp by simp
    then have "p < int ((2::nat) ^ ?P)" using p by linarith
    then have "(of_int p :: rat) < of_int (int ((2::nat) ^ ?P))" by (simp only: of_int_less_iff)
    then show ?thesis by simp
  qed
  have q1: "(2::rat) ^ (?Q - 1) \<le> of_int q" 
  proof -
    have "(2::nat) ^ (?Q - 1) \<le> nat q" using bq by simp
    then have "int ((2::nat) ^ (?Q - 1)) \<le> q" using q by linarith
    then have "(of_int (int ((2::nat) ^ (?Q - 1))) :: rat) \<le> of_int q" by (simp only: of_int_le_iff)
    then show ?thesis by simp
  qed
  have q2: "(of_int q :: rat) < 2 ^ ?Q"
  proof -
    have "nat q < (2::nat) ^ ?Q" using bq by simp
    then have "q < int ((2::nat) ^ ?Q)" using q by linarith
    then have "(of_int q :: rat) < of_int (int ((2::nat) ^ ?Q))" by (simp only: of_int_less_iff)
    then show ?thesis by simp
  qed
  have qr: "(0::rat) < of_int q" using q by simp
  have pr: "(0::rat) < of_int p" using p by simp
  let ?e0 = "int ?P - int ?Q"
  have hi: "x < pow2 (?e0 + 1)"
  proof -
    have "2 ^ ?Q = 2 * (2::rat) ^ (?Q - 1)" using Qpos by (cases ?Q) simp_all
    then have "(2::rat) ^ ?Q \<le> 2 * of_int q" using q1 by linarith
    then have "of_int p * (2::rat) ^ ?Q < 2 ^ ?P * (2 * of_int q)"
      using p2 pr qr by (intro mult_less_le_imp_less) simp_all
    then have "of_int p / of_int q < 2 * ((2::rat) ^ ?P / 2 ^ ?Q)"
      using qr by (simp add: field_simps)
    then show ?thesis unfolding x pow2_Suc pow2_diff_nat .
  qed
  have lo: "pow2 (?e0 - 1) \<le> x"
  proof -
    have "2 ^ ?P = 2 * (2::rat) ^ (?P - 1)" using Ppos by (cases ?P) simp_all
    then have "(2::rat) ^ ?P \<le> 2 * of_int p" using p1 by linarith
    then have "(2::rat) ^ ?P * of_int q \<le> (2 * of_int p) * 2 ^ ?Q"
      using q2 pr qr by (intro mult_mono) simp_all
    then have "(2::rat) ^ ?P / 2 ^ ?Q \<le> 2 * (of_int p / of_int q)"
      using qr by (simp add: field_simps)
    moreover have "pow2 ?e0 = 2 * pow2 (?e0 - 1)" using pow2_Suc[of "?e0 - 1"] by simp
    ultimately show ?thesis unfolding x pow2_diff_nat by linarith
  qed
  have il: "ilog2 x = (if pow2 ?e0 \<le> x then ?e0 else ?e0 - 1)"
    by (simp add: ilog2_def pq Let_def)
  show ?thesis
  proof (cases "pow2 ?e0 \<le> x")
    case True
    then show ?thesis using hi il by simp
  next
    case False
    then show ?thesis using lo il by simp
  qed
qed

lemma rne_error: "\<bar>of_int (rne y) - y\<bar> \<le> 1 / 2"
proof -
  have f: "of_int \<lfloor>y\<rfloor> \<le> y" "y < of_int \<lfloor>y\<rfloor> + 1" by linarith+
  show ?thesis unfolding rne_def Let_def using f by (auto simp: abs_le_iff)
qed

lemma fl_error:
  assumes "0 < x"
  shows "\<bar>fl x - x\<bar> \<le> x / 2 ^ 53"
proof -
  let ?e = "ilog2 x"
  let ?u = "pow2 (?e - 52)"
  have u: "0 < ?u" by (rule pow2_pos)
  have flx: "fl x = of_int (rne (x / ?u)) * ?u"
    using assms by (simp add: fl_def Let_def)
  have "fl x - x = (of_int (rne (x / ?u)) - x / ?u) * ?u"
    unfolding flx using u by (simp add: field_simps)
  then have "\<bar>fl x - x\<bar> = \<bar>of_int (rne (x / ?u)) - x / ?u\<bar> * ?u"
    using u by (simp add: abs_mult)
  also have "\<dots> \<le> (1 / 2) * ?u"
    using rne_error[of "x / ?u"] u by (intro mult_right_mono) simp_all
  also have "\<dots> = pow2 ?e / 2 ^ 53"
  proof -
    have "pow2 ?e = pow2 (?e - 52) * pow2 52" using pow2_add[of "?e - 52" 52] by simp
    then show ?thesis by (simp add: pow2_def)
  qed
  also have "\<dots> \<le> x / 2 ^ 53"
    using ilog2_bounds[OF assms] by (simp add: divide_right_mono)
  finally show ?thesis .
qed
lemma fl_zero [simp]: "fl 0 = 0"
  by (simp add: fl_def)

lemma fl_pos: "0 < x \<Longrightarrow> 0 < fl x"
proof -
  assume x: "0 < x"
  have "\<bar>fl x - x\<bar> \<le> x / 2 ^ 53" using x by (rule fl_error)
  then have "x - x / 2 ^ 53 \<le> fl x" by linarith
  moreover have "x / 2 ^ 53 < x" using x by (simp add: field_simps)
  ultimately show ?thesis by linarith
qed

lemma percent_close:
  assumes g: "0 < g" and t: "t < 2 ^ 51"
  shows "\<bar>fl (fl (of_nat t / of_nat (g * 3600)) * 100) - of_nat t / of_nat (36 * g)\<bar>
           < 1 / of_nat (36 * g)"
proof (cases "t = 0")
  case True
  then show ?thesis using g by simp
next
  case False
  define x :: rat where "x = of_nat t / of_nat (g * 3600)"
  define eps :: rat where "eps = 1 / 2 ^ 53"
  have gr: "(0::rat) < of_nat g" using g by simp
  have tr: "(0::rat) < of_nat t" using False by simp
  have x: "0 < x" unfolding x_def using gr tr by simp
  have eps: "0 < eps" "eps \<le> 1" unfolding eps_def by simp_all
  have e1: "\<bar>fl x - x\<bar> \<le> x * eps" using fl_error[OF x] by (simp add: eps_def)
  have q: "0 < fl x" using x by (rule fl_pos)
  have y: "0 < fl x * 100" using q by simp
  have e2: "\<bar>fl (fl x * 100) - fl x * 100\<bar> \<le> fl x * 100 * eps"
    using fl_error[OF y] by (simp add: eps_def)
  have qle: "fl x \<le> 2 * x"
  proof -
    have "fl x \<le> x + x * eps" using e1 by linarith
    also have "\<dots> \<le> x + x * 1" using x eps by (intro add_left_mono mult_left_mono) simp_all
    finally show ?thesis by simp
  qed
  have "fl (fl x * 100) - 100 * x = (fl (fl x * 100) - fl x * 100) + 100 * (fl x - x)"
    by simp
  then have "\<bar>fl (fl x * 100) - 100 * x\<bar>
        \<le> \<bar>fl (fl x * 100) - fl x * 100\<bar> + \<bar>100 * (fl x - x)\<bar>"
    by (metis abs_triangle_ineq)
  moreover have "\<bar>100 * (fl x - x)\<bar> = 100 * \<bar>fl x - x\<bar>"
    by (simp only: abs_mult abs_numeral)
  ultimately have "\<bar>fl (fl x * 100) - 100 * x\<bar> \<le> \<bar>fl (fl x * 100) - fl x * 100\<bar> + 100 * \<bar>fl x - x\<bar>"
    by (simp only:)
  also have "\<dots> \<le> fl x * 100 * eps + 100 * (x * eps)"
    by (intro add_mono mult_left_mono e1 e2) simp
  also have "\<dots> \<le> (2 * x) * 100 * eps + 100 * (x * eps)"
    using qle eps by (intro add_right_mono mult_right_mono) simp_all
  also have "\<dots> = 300 * x * eps" by simp
  finally have d: "\<bar>fl (fl x * 100) - 100 * x\<bar> \<le> 300 * x * eps" .
  have hx: "100 * x = of_nat t / of_nat (36 * g)"
    unfolding x_def using gr by (simp add: field_simps)
  have "300 * x * eps = (of_nat (3 * t) / 2 ^ 53) * (1 / of_nat (36 * g))"
    unfolding x_def eps_def using gr by (simp add: field_simps)
  moreover have "(of_nat (3 * t) :: rat) / 2 ^ 53 < 1"
  proof -
    have "3 * t < 2 ^ 53" using t by simp
    then have "(of_nat (3 * t) :: rat) < of_nat (2 ^ 53)" by (simp only: of_nat_less_iff)
    then show ?thesis by simp
  qed
  moreover have "(0::rat) < 1 / of_nat (36 * g)" using g by simp
  ultimately have "300 * x * eps < 1 / of_nat (36 * g)"
    using mult_strict_right_mono[of "of_nat (3 * t) / 2 ^ 53" 1 "1 / of_nat (36 * g)"]
    by (simp only: mult_1)
  then show ?thesis using d unfolding hx x_def by linarith
qed

lemma exact_round:
  assumes "0 < g"
  shows "Math_round (100 * of_nat t / of_nat (g * 3600)) = int ((t + 18 * g) div (36 * g))"
proof -
  have gr: "(0::rat) < of_nat g" using assms by simp
  have "100 * of_nat t / of_nat (g * 3600) + 1 / 2 = (of_nat (t + 18 * g) :: rat) / of_nat (36 * g)"
    using gr by (simp add: field_simps)
  then show ?thesis unfolding Math_round_def by (simp only: floor_divide_of_nat_eq)
qed

lemma round_near:
  fixes p :: rat
  assumes g: "0 < g" and close: "\<bar>p - of_nat t / of_nat (36 * g)\<bar> < 1 / of_nat (36 * g)"
  shows "(t + 18 * g) mod (36 * g) \<noteq> 0 \<Longrightarrow> Math_round p = int ((t + 18 * g) div (36 * g))"
    and "Math_round p = int ((t + 18 * g) div (36 * g)) \<or>
         Math_round p = int ((t + 18 * g) div (36 * g)) - 1"
proof -
  let ?c = "36 * g" and ?N = "t + 18 * g"
  let ?n = "?N div ?c" and ?r = "?N mod ?c"
  have cr: "(0::rat) < of_nat ?c" using g by simp
  have N: "?N = ?c * ?n + ?r" by simp
  have "(of_nat ?N :: rat) = of_nat ?c * of_nat ?n + of_nat ?r"
    by (metis N of_nat_add of_nat_mult)
  then have a: "(of_nat ?N :: rat) / of_nat ?c = of_nat ?n + of_nat ?r / of_nat ?c"
    using cr by (simp add: field_simps)
  have half: "of_nat t / of_nat ?c + 1 / 2 = (of_nat ?N :: rat) / of_nat ?c"
    using g by (simp add: field_simps)
  have rlt: "?r < ?c" using g by simp
  have r1: "(of_nat ?r :: rat) / of_nat ?c \<le> 1 - 1 / of_nat ?c"
  proof -
    have "?r + 1 \<le> ?c" using rlt by linarith
    then have "(of_nat (?r + 1) :: rat) \<le> of_nat ?c" by (simp only: of_nat_le_iff)
    then have "(of_nat ?r :: rat) + 1 \<le> of_nat ?c" by simp
    then show ?thesis using cr by (simp add: field_simps)
  qed
  have r0: "(0::rat) \<le> of_nat ?r / of_nat ?c" by simp
  have up: "p + 1 / 2 < of_nat ?n + 1"
    using close half a r1 by linarith
  have lo': "of_nat ?n - 1 / of_nat ?c < p + 1 / 2"
    using close half a r0 by linarith
  have c1: "(1::rat) / of_nat ?c \<le> 1"
  proof -
    have "1 \<le> ?c" using g by simp
    then have "(1::rat) \<le> of_nat ?c" by (metis of_nat_1 of_nat_le_iff)
    then show ?thesis using cr by (simp add: field_simps)
  qed
  show "Math_round p = int ?n \<or> Math_round p = int ?n - 1"
  proof -
    have "of_int (int ?n - 1) \<le> p + 1 / 2" using lo' c1 by simp
    moreover have "p + 1 / 2 < of_int (int ?n - 1) + 2" using up by simp
    ultimately have "int ?n - 1 \<le> \<lfloor>p + 1 / 2\<rfloor>" "\<lfloor>p + 1 / 2\<rfloor> < int ?n - 1 + 2"
      by (simp_all add: le_floor_iff floor_less_iff)
    then show ?thesis unfolding Math_round_def by linarith
  qed
  show "Math_round p = int ?n" if nz: "?r \<noteq> 0"
  proof -
    have "1 \<le> ?r" using nz by simp
    then have "(1::rat) \<le> of_nat ?r" by (metis of_nat_1 of_nat_le_iff)
    then have "(1::rat) / of_nat ?c \<le> of_nat ?r / of_nat ?c"
      using cr by (simp add: divide_right_mono)
    then have "of_int (int ?n) \<le> p + 1 / 2" using close half a by simp
    moreover have "p + 1 / 2 < of_int (int ?n) + 1" using up by simp
    ultimately have "\<lfloor>p + 1 / 2\<rfloor> = int ?n" by (rule floor_unique)
    then show ?thesis by (simp add: Math_round_def)
  qed
qed

lemma progress_exact:
  assumes "0 < g" and "t < 2 ^ 51"
  shows "(t + 18 * g) mod (36 * g) \<noteq> 0 \<Longrightarrow>
           progress_of g t = Math_round (100 * of_nat t / of_nat (g * 3600))"
    and "progress_of g t = Math_round (100 * of_nat t / of_nat (g * 3600)) \<or>
         progress_of g t = Math_round (100 * of_nat t / of_nat (g * 3600)) - 1"
  unfolding progress_of_def exact_round[OF assms(1)]
  using round_near[OF assms(1) percent_close[OF assms]] by blast+

lemma tie_iff:
  fixes g t :: nat
  assumes "0 < g" and "t mod (36 * g) \<noteq> 18 * g"
  shows "(t + 18 * g) mod (36 * g) \<noteq> 0"
proof
  assume z: "(t + 18 * g) mod (36 * g) = 0"
  define m where "m = t mod (36 * g)"
  have m: "m < 36 * g" unfolding m_def using assms(1) by simp
  have e: "(m + 18 * g) mod (36 * g) = 0" unfolding m_def using z by (simp add: mod_simps)
  show False
  proof (cases "m + 18 * g < 36 * g")
    case True
    then have "(m + 18 * g) mod (36 * g) = m + 18 * g" by simp
    then show False using e assms(1) by simp
  next
    case False
    then have "(m + 18 * g) mod (36 * g) = (m + 18 * g - 36 * g) mod (36 * g)"
      by (simp add: le_mod_geq)
    moreover have "m + 18 * g - 36 * g < 36 * g" using m by linarith
    ultimately have "m + 18 * g - 36 * g = 0" using e by simp
    then have "m = 18 * g" using False by linarith
    then show False using assms(2) by (simp add: m_def)
  qed
qed
subsection \<open>Evaluating the rounding on concrete numbers\<close>

lemma pow2_mono: "a \<le> b \<Longrightarrow> pow2 a \<le> pow2 b"
  by (simp add: pow2_powi power_int_increasing)

lemma ilog2_unique:
  assumes "pow2 e \<le> x" and "x < pow2 (e + 1)"
  shows "ilog2 x = e"
proof -
  have x: "0 < x" using assms(1) pow2_pos[of e] by linarith
  have b: "pow2 (ilog2 x) \<le> x" "x < pow2 (ilog2 x + 1)" using ilog2_bounds[OF x] by simp_all
  show ?thesis
  proof (rule ccontr)
    assume "ilog2 x \<noteq> e"
    then consider "ilog2 x + 1 \<le> e" | "e + 1 \<le> ilog2 x" by linarith
    then show False
    proof cases
      case 1
      then have "pow2 (ilog2 x + 1) \<le> pow2 e" by (rule pow2_mono)
      then show False using b assms by linarith
    next
      case 2
      then have "pow2 (e + 1) \<le> pow2 (ilog2 x)" by (rule pow2_mono)
      then show False using b assms by linarith
    qed
  qed
qed

lemma rne_eval:
  assumes "of_int n - 1 / 2 < y" and "y < of_int n + 1 / 2"
  shows "rne y = n"
proof -
  have f: "of_int \<lfloor>y\<rfloor> \<le> y" "y < of_int \<lfloor>y\<rfloor> + 1" by linarith+
  have "of_int n - 1 < (of_int \<lfloor>y\<rfloor> :: rat) + 1" "(of_int \<lfloor>y\<rfloor> :: rat) < of_int n + 1"
    using assms f by linarith+
  then have "n - 1 < \<lfloor>y\<rfloor> + 1" "\<lfloor>y\<rfloor> < n + 1"
    by (metis of_int_1 of_int_add of_int_diff of_int_less_iff)+
  then consider "\<lfloor>y\<rfloor> = n" | "\<lfloor>y\<rfloor> = n - 1" by linarith
  then show ?thesis
  proof cases
    case 1
    then show ?thesis using assms unfolding rne_def Let_def by simp
  next
    case 2
    then show ?thesis using assms unfolding rne_def Let_def by simp
  qed
qed

lemma fl_eval:
  assumes "pow2 e \<le> x" and "x < pow2 (e + 1)"
    and "of_int n - 1 / 2 < x / pow2 (e - 52)" and "x / pow2 (e - 52) < of_int n + 1 / 2"
  shows "fl x = of_int n * pow2 (e - 52)"
proof -
  have x: "0 < x" using assms(1) pow2_pos[of e] by linarith
  show ?thesis
    using x by (simp add: fl_def Let_def ilog2_unique[OF assms(1,2)] rne_eval[OF assms(3,4)])
qed

lemma Math_round_eval:
  assumes "of_int n \<le> x + 1 / 2" and "x + 1 / 2 < of_int n + 1"
  shows "Math_round x = n"
  unfolding Math_round_def using assms by (rule floor_unique)

lemma fl_23_40: "fl (23 / 40) = 2589569785738035 / 4503599627370496"
proof -
  have "fl (23 / 40) = of_int 5179139571476070 * pow2 (- 1 - 52)"
    by (rule fl_eval) (simp_all add: pow2_def)
  then show ?thesis by (simp add: pow2_def)
qed

lemma fl_57: "fl (2589569785738035 / 4503599627370496 * 100) = 8092405580431359 / 140737488355328"
proof -
  have "fl (2589569785738035 / 4503599627370496 * 100) = of_int 8092405580431359 * pow2 (5 - 52)"
    by (rule fl_eval) (simp_all add: pow2_def)
  then show ?thesis by (simp add: pow2_def)
qed

lemma progress_23_40: "Math_round (fl (fl (23 / 40) * 100)) = 57"
  unfolding fl_23_40 fl_57 by (rule Math_round_eval) simp_all

lemma fl_exact_examples: "fl (1 / 2) = 1 / 2" "fl 50 = 50" "fl 2 = 2" "fl 200 = 200"
proof -
  have "fl (1 / 2) = of_int 4503599627370496 * pow2 (- 1 - 52)"
    by (rule fl_eval) (simp_all add: pow2_def)
  then show "fl (1 / 2) = 1 / 2" by (simp add: pow2_def)
  have "fl 50 = of_int 7036874417766400 * pow2 (5 - 52)"
    by (rule fl_eval) (simp_all add: pow2_def)
  then show "fl 50 = 50" by (simp add: pow2_def)
  have "fl 2 = of_int 4503599627370496 * pow2 (1 - 52)"
    by (rule fl_eval) (simp_all add: pow2_def)
  then show "fl 2 = 2" by (simp add: pow2_def)
  have "fl 200 = of_int 7036874417766400 * pow2 (7 - 52)"
    by (rule fl_eval) (simp_all add: pow2_def)
  then show "fl 200 = 200" by (simp add: pow2_def)
qed

lemma progress_examples:
  "progress_of 8 16560 = 57" "progress_of 40 82800 = 57"
  "progress_of 8 (4 * 3600) = 50" "progress_of 8 (16 * 3600) = 200"
  "progress_of 8 14400 = 50"
proof -
  have r: "(of_nat 16560 :: rat) / of_nat (8 * 3600) = 23 / 40"
    "(of_nat 82800 :: rat) / of_nat (40 * 3600) = 23 / 40"
    "(of_nat (4 * 3600) :: rat) / of_nat (8 * 3600) = 1 / 2"
    "(of_nat (16 * 3600) :: rat) / of_nat (8 * 3600) = 2"
    by simp_all
  show "progress_of 8 16560 = 57" "progress_of 40 82800 = 57"
    unfolding progress_of_def r by (rule progress_23_40)+
  show "progress_of 8 (4 * 3600) = 50"
    unfolding progress_of_def r fl_exact_examples
    by (simp add: fl_exact_examples) (rule Math_round_eval; simp)
  then show "progress_of 8 14400 = 50" by simp
  show "progress_of 8 (16 * 3600) = 200"
    unfolding progress_of_def r fl_exact_examples
    by (simp add: fl_exact_examples) (rule Math_round_eval; simp)
qed

section \<open>The duration parser: results\<close>



text \<open>
  C2. An input in which no duration token matches: either no token \<open><n>w\<close>, \<open><n>d\<close>,
  \<open><n>h\<close>, \<open><n>m\<close> occurs anywhere in it (the empty string is such an input), or no group of
  the regular expression takes part in the match. The parser then returns the number 0, which
  is falsy: the caller, \<^verbatim>\<open>handleLogTime\<close>, sends no request for it (it does nothing for a
  blank text and reports an invalid format otherwise), whereas for every parse of a positive
  duration the value is truthy and the caller posts exactly that value.
\<close>

theorem no_token_is_failure:
  assumes "\<not> has_token s \<or> no_group s"
  shows "parseTimeToSeconds s = Some (Num 0)
       \<and> falsy (parseTimeToSeconds s)
       \<and> (handleLogTime s = NoRequest \<or> handleLogTime s = InvalidFormat)
       \<and> (\<forall>t n. parseTimeToSeconds t = Some (Num n) \<and> 0 < n \<longrightarrow>
             \<not> falsy (parseTimeToSeconds t) \<and> handleLogTime t = PostWorklog (Num n))"
proof -
  have p0: "parseTimeToSeconds s = Some (Num 0)"
  proof (cases "has_token s")
    case False
    then show ?thesis by (rule no_token_parse)
  next
    case True
    then have "no_group s" using assms by simp
    then have "scan (trim s) = (None, None, None, None)"
      unfolding no_group_def exec_timeRegex
      by (cases "scan (trim s)") (simp add: upd_lookup)
    then show ?thesis by (simp add: parse_scan)
  qed
  have pos: "\<And>t n. parseTimeToSeconds t = Some (Num n) \<Longrightarrow> 0 < n \<Longrightarrow>
      \<not> falsy (parseTimeToSeconds t) \<and> handleLogTime t = PostWorklog (Num n)"
  proof -
    fix t n assume t: "parseTimeToSeconds t = Some (Num n)" and n: "0 < (n::int)"
    have "trim t \<noteq> []"
    proof
      assume e: "trim t = []"
      have "scan [] = (None, None, None, None)" by (rule no_token_scan) simp
      then have "parseTimeToSeconds t = Some (Num 0)" using e by (simp add: parse_scan)
      then show False using t n by simp
    qed
    then show "\<not> falsy (parseTimeToSeconds t) \<and> handleLogTime t = PostWorklog (Num n)"
      using t n by (simp add: handleLogTime_def)
  qed
  show ?thesis using p0 pos by (simp add: handleLogTime_def)
qed

theorem no_token_is_failure_witness:
  "\<not> has_token ''abc''
   \<and> parseTimeToSeconds ''abc'' = Some (Num 0) \<and> handleLogTime ''abc'' = InvalidFormat
   \<and> parseTimeToSeconds [] = Some (Num 0) \<and> handleLogTime [] = NoRequest
   \<and> has_token ''x 1h'' \<and> no_group ''x 1h'' \<and> handleLogTime ''x 1h'' = InvalidFormat
   \<and> handleLogTime ''1h 30m'' = PostWorklog (Num 5400)"
proof -
  have a: "\<not> has_token ''abc''" by (simp add: is_digit_def)
  have b: "\<not> has_token []" by simp
  have c: "has_token ''x 1h''" by (simp add: is_digit_def is_unit_def)
  have s: "trim ''x 1h'' = ''x 1h''" "trim ''abc'' = ''abc''"
    by (simp_all add: trim_def is_space_def)
  have "scan ''x 1h'' = (None, None, None, None)"
    by (simp add: scan_def read_token_def lex_token_def is_digit_def)
  then have d: "no_group ''x 1h''"
    unfolding no_group_def s exec_timeRegex by (simp add: upd_def)
  have e: "parseTimeToSeconds ''1h 30m'' = Some (Num 5400)" by code_simp
  have f: "trim ''abc'' \<noteq> []" "trim ''x 1h'' \<noteq> []" "trim [] = []"
    unfolding s by (simp_all add: trim_def)
  have g: "handleLogTime ''1h 30m'' = PostWorklog (Num 5400)"
    using no_token_is_failure[of "''abc''"] a e by simp
  show ?thesis
    using no_token_is_failure[of "''abc''"] no_token_is_failure[of "[]"]
      no_token_is_failure[of "''x 1h''"] a b c d f g
    by (simp add: handleLogTime_def)
qed



section \<open>The weekly timesheet: results\<close>

text \<open>
  C4. The daily endpoint builds seven buckets, Monday to Sunday of the current local week, and
  should put every entry of the user that starts within that week into the bucket of the
  entry's local calendar day. The handler looks the bucket up by the UTC date of the entry
  instead, while the bounds of the week, and the name of the day that each bucket carries,
  follow local time. Six hours west of UTC, on Sunday evening: the week runs from day 19737
  (Monday) to day 19743 (Sunday), an hour logged on Monday at 20:00 local time is counted
  under Tuesday, and two hours logged on Sunday at 20:00 local time, inside the week, are in
  no bucket and not in the weekly total.
\<close>

theorem daily_buckets_follow_utc_date:
  "monday_of (local_day tz_west sunday_evening) = 19737
   \<and> local_day tz_west monday_8pm = 19737
   \<and> local_day tz_west sunday_8pm = 19743
   \<and> week_start tz_west sunday_evening \<le> monday_8pm
   \<and> sunday_8pm \<le> week_end tz_west sunday_evening
   \<and> map day_row (dailyData example_report)
       = [(19737, ''Lunes'', 0), (19738, ''Martes'', 3600), (19739, dayNames ! 3, 0),
          (19740, ''Jueves'', 0), (19741, ''Viernes'', 0), (19742, dayNames ! 6, 0),
          (19743, ''Domingo'', 0)]
   \<and> week_totalSeconds example_report = 3600"
proof -
  have "monday_of (local_day tz_west sunday_evening) = 19737"
    "local_day tz_west monday_8pm = 19737" "local_day tz_west sunday_8pm = 19743"
    by (simp_all add: monday_of_def local_day_def LocalTime_def Day_def msPerDay_def tz_west_def
          sunday_evening_def monday_8pm_def sunday_8pm_def)
  moreover have "week_start tz_west sunday_evening \<le> monday_8pm"
    "sunday_8pm \<le> week_end tz_west sunday_evening"
    unfolding ex_week by (simp_all add: monday_8pm_def sunday_8pm_def)
  ultimately show ?thesis using ex_rows by simp
qed



section \<open>The worklog summary: results\<close>



section \<open>The routes: results\<close>




section \<open>Progress percentages: results\<close>

text \<open>
  C3, as stated: the progress of a day is \<open>round(100 * totalSeconds / (8 * 3600))\<close> and the
  weekly progress \<open>round(100 * totalSeconds / (40 * 3600))\<close>. The handler computes
  \<^verbatim>\<open>Math.round((totalSeconds / (goal * 3600)) * 100)\<close> in double precision, where the
  quotient is rounded before it is multiplied. For 16560 seconds (4 h 36 min) in a day the
  exact percentage is 57.5, which rounds to 58, but the quotient 0.575 is not a double, the
  product is 57.49999999999999 and the handler gives 57; 82800 seconds (23 h) in a week give
  57 in the same way, against 58.
\<close>

theorem progress_counterexample:
  "progress_of 8 16560 = 57
   \<and> Math_round (100 * of_nat 16560 / of_nat (8 * 3600)) = 58
   \<and> progress_of 40 82800 = 57
   \<and> Math_round (100 * of_nat 82800 / of_nat (40 * 3600)) = 58"
  using progress_examples(1,2) exact_round[of 8 16560] exact_round[of 40 82800] by simp

text \<open>
  C3, amended. For every bucket the progress is
  \<^verbatim>\<open>Math.round((totalSeconds / (8 * 3600)) * 100)\<close> in double precision, and the weekly
  progress the same with the goal of 40 hours. For a total below \<open>2^51\<close> seconds this is
  \<open>round(100 * totalSeconds / (goal * 3600))\<close>, a tie going up, whenever the exact percentage
  is not half-way between two integers (the total is not 144 modulo 288 for a day, not 720
  modulo 1440 for the week); at such a tie it is that number or one less. The value in the
  response is not clamped, the view clamps the width of the bar at 100; four hours against
  the goal of eight hours give 50, and sixteen hours give 200 with a bar of width 100.
\<close>

theorem progress_percentages:
  "(t < 2 ^ 51 \<and> t mod 288 \<noteq> 144 \<longrightarrow>
      progress_of 8 t = Math_round (100 * of_nat t / of_nat (8 * 3600)))
   \<and> (t < 2 ^ 51 \<and> t mod 1440 \<noteq> 720 \<longrightarrow>
      progress_of 40 t = Math_round (100 * of_nat t / of_nat (40 * 3600)))
   \<and> (t < 2 ^ 51 \<longrightarrow>
      (progress_of 8 t = Math_round (100 * of_nat t / of_nat (8 * 3600)) \<or>
       progress_of 8 t = Math_round (100 * of_nat t / of_nat (8 * 3600)) - 1) \<and>
      (progress_of 40 t = Math_round (100 * of_nat t / of_nat (40 * 3600)) \<or>
       progress_of 40 t = Math_round (100 * of_nat t / of_nat (40 * 3600)) - 1))
   \<and> progress (to_entry d) = progress_of 8 (totalSeconds d)
   \<and> weeklyProgress (daily_report tz now me issues fetch)
       = progress_of 40 (week_totalSeconds (daily_report tz now me issues fetch))
   \<and> progress_of 8 (4 * 3600) = 50
   \<and> progress_of 8 (16 * 3600) = 200
   \<and> bar_width (progress_of 8 (16 * 3600)) = 100
   \<and> bar_width p = min p 100"
proof -
  have a: "t < 2 ^ 51 \<and> t mod 288 \<noteq> 144 \<longrightarrow>
      progress_of 8 t = Math_round (100 * of_nat t / of_nat (8 * 3600))"
  proof
    assume h: "t < 2 ^ 51 \<and> t mod 288 \<noteq> 144"
    have "(t + 18 * 8) mod (36 * 8) \<noteq> 0" by (rule tie_iff) (use h in simp_all)
    then show "progress_of 8 t = Math_round (100 * of_nat t / of_nat (8 * 3600))"
      using progress_exact(1)[of 8 t] h by simp
  qed
  have b: "t < 2 ^ 51 \<and> t mod 1440 \<noteq> 720 \<longrightarrow>
      progress_of 40 t = Math_round (100 * of_nat t / of_nat (40 * 3600))"
  proof
    assume h: "t < 2 ^ 51 \<and> t mod 1440 \<noteq> 720"
    have "(t + 18 * 40) mod (36 * 40) \<noteq> 0" by (rule tie_iff) (use h in simp_all)
    then show "progress_of 40 t = Math_round (100 * of_nat t / of_nat (40 * 3600))"
      using progress_exact(1)[of 40 t] h by simp
  qed
  have c: "t < 2 ^ 51 \<longrightarrow>
      (progress_of 8 t = Math_round (100 * of_nat t / of_nat (8 * 3600)) \<or>
       progress_of 8 t = Math_round (100 * of_nat t / of_nat (8 * 3600)) - 1) \<and>
      (progress_of 40 t = Math_round (100 * of_nat t / of_nat (40 * 3600)) \<or>
       progress_of 40 t = Math_round (100 * of_nat t / of_nat (40 * 3600)) - 1)"
    using progress_exact(2)[of 8 t] progress_exact(2)[of 40 t] by simp
  have d: "progress (to_entry d) = progress_of 8 (totalSeconds d)" by simp
  have e: "weeklyProgress (daily_report tz now me issues fetch)
       = progress_of 40 (week_totalSeconds (daily_report tz now me issues fetch))"
    by (simp add: daily_report_def Let_def split_def)
  have f: "progress_of 8 (4 * 3600) = 50" "progress_of 8 (16 * 3600) = 200"
    by (rule progress_examples)+
  have g: "bar_width (progress_of 8 (16 * 3600)) = 100" unfolding f by (simp add: bar_width_def)
  have h: "bar_width p = min p 100" by (simp add: bar_width_def)
  show ?thesis using a b c d e f g h by blast
qed

theorem progress_percentages_witness:
  "(14400::nat) < 2 ^ 51 \<and> (14400::nat) mod 288 \<noteq> 144
   \<and> (14400::nat) mod 1440 \<noteq> 720
   \<and> progress_of 8 14400 = Math_round (100 * of_nat 14400 / of_nat (8 * 3600))
   \<and> progress_of 40 14400 = Math_round (100 * of_nat 14400 / of_nat (40 * 3600))
   \<and> Math_round (100 * of_nat 14400 / of_nat (8 * 3600)) = 50
   \<and> Math_round (100 * of_nat 14400 / of_nat (40 * 3600)) = 10"
proof -
  have h: "(14400::nat) < 2 ^ 51" "(14400::nat) mod 288 \<noteq> 144" "(14400::nat) mod 1440 \<noteq> 720"
    by simp_all
  have r: "Math_round (100 * of_nat 14400 / of_nat (8 * 3600)) = 50"
    "Math_round (100 * of_nat 14400 / of_nat (40 * 3600)) = 10"
    using exact_round[of 8 14400] exact_round[of 40 14400] by simp_all
  from progress_percentages[of 14400]
  have "((14400::nat) < 2 ^ 51 \<and> (14400::nat) mod 288 \<noteq> 144 \<longrightarrow>
      progress_of 8 14400 = Math_round (100 * of_nat 14400 / of_nat (8 * 3600)))"
    "((14400::nat) < 2 ^ 51 \<and> (14400::nat) mod 1440 \<noteq> 720 \<longrightarrow>
      progress_of 40 14400 = Math_round (100 * of_nat 14400 / of_nat (40 * 3600)))"
    by blast+
  then show ?thesis using h r by simp
qed

end
